theory Spec2Isabelle
  imports Main "HOL-Library.Word"
begin

unbundle bit_operations_syntax

section \<open>Platform and memory\<close>

text \<open>
  The scanner reads the buffer through a pointer to plain \<open>char\<close>
  (\<^verbatim>\<open>const char *s = buffer;\<close>) and stores what it reads in a \<open>size_t\<close>.
  Whether plain \<open>char\<close> is signed and how wide \<open>size_t\<close> is are chosen by the C
  implementation, so both are parameters of the model.
\<close>

type_synonym byte = "8 word"

record platform =
  char_signed :: bool
  size_bits :: nat

definition char_value :: "platform \<Rightarrow> byte \<Rightarrow> int" where
  "char_value pf b = (if char_signed pf then sint b else uint b)"

definition to_size_t :: "platform \<Rightarrow> int \<Rightarrow> nat" where
  "to_size_t pf i = nat (i mod 2 ^ size_bits pf)"

text \<open>
  A buffer is the list of the bytes of the object a pointer points into; a pointer
  into it is an offset.  Reading at an offset outside the object is \<open>None\<close>.
\<close>

definition peek :: "byte list \<Rightarrow> nat \<Rightarrow> byte option" where
  "peek buf i = (if i < length buf then Some (buf ! i) else None)"

section \<open>find_simple_tlv\<close>

text \<open>
  \<open>Null\<close> is the \<^verbatim>\<open>NULL\<close> return, \<open>Value s len\<close> the return of the pointer
  \<open>s\<close> with \<^verbatim>\<open>*nbytes = len\<close>, and \<open>Bad_Read\<close> a read outside the buffer.
\<close>

datatype tlv_result = Bad_Read | Null | Value nat nat

datatype tlv_step = Return tlv_result | Next nat nat

text \<open>Lines 206 to 213: the tag test and the skip to the next record.\<close>

definition tlv_match :: "byte list \<Rightarrow> int \<Rightarrow> nat \<Rightarrow> nat \<Rightarrow> nat \<Rightarrow> nat \<Rightarrow> tlv_step" where
  "tlv_match buf tag buffer s n len =
     (case peek buf buffer of
        None \<Rightarrow> Return Bad_Read
      | Some t \<Rightarrow>
          if uint t = tag then Return (Value s len)
          else if len > n then Return Null
          else Next (s + len) (n - len))"

text \<open>
  Lines 195 to 205: the length field.  \<open>Header s n len\<close> is the state after the
  field: the pointer, the bytes left and the declared length.
\<close>

datatype tlv_header = Header_Bad_Read | Header_Short | Header nat nat nat

definition tlv_length :: "platform \<Rightarrow> byte list \<Rightarrow> nat \<Rightarrow> nat \<Rightarrow> tlv_header" where
  "tlv_length pf buf s n =
     (if n < 2 then Header_Short
      else case peek buf (s + 1) of
        None \<Rightarrow> Header_Bad_Read
      | Some l \<Rightarrow>
          let len = to_size_t pf (char_value pf l) in
          if len = 255 then
            (if n - 2 < 2 then Header_Short
             else case peek buf (s + 2) of
               None \<Rightarrow> Header_Bad_Read
             | Some h \<Rightarrow>
                (case peek buf (s + 3) of
                   None \<Rightarrow> Header_Bad_Read
                 | Some l2 \<Rightarrow>
                     Header (s + 4) (n - 4)
                       (to_size_t pf (push_bit 8 (char_value pf h) OR char_value pf l2))))
          else Header (s + 2) (n - 2) len)"

text \<open>Lines 194 to 213: one pass through the body of the loop.\<close>

definition tlv_body :: "platform \<Rightarrow> byte list \<Rightarrow> int \<Rightarrow> nat \<Rightarrow> nat \<Rightarrow> tlv_step" where
  "tlv_body pf buf tag s n =
     (case tlv_length pf buf s n of
        Header_Bad_Read \<Rightarrow> Return Bad_Read
      | Header_Short \<Rightarrow> Return Null
      | Header s1 n1 len \<Rightarrow> tlv_match buf tag s s1 n1 len)"

function find_simple_tlv_loop :: "platform \<Rightarrow> byte list \<Rightarrow> int \<Rightarrow> nat \<Rightarrow> nat \<Rightarrow> tlv_result" where
  "find_simple_tlv_loop pf buf tag s n =
     (case tlv_body pf buf tag s n of
        Return r \<Rightarrow> r
      | Next s' n' \<Rightarrow> find_simple_tlv_loop pf buf tag s' n')"
  by pat_completeness auto
termination
  by (relation "measure (\<lambda>(pf, buf, tag, s, n). n)")
     (auto simp: tlv_body_def tlv_length_def tlv_match_def Let_def
           split: if_splits option.splits tlv_header.splits)

declare find_simple_tlv_loop.simps [simp del]

definition find_simple_tlv :: "platform \<Rightarrow> byte list \<Rightarrow> nat \<Rightarrow> int \<Rightarrow> tlv_result" where
  "find_simple_tlv pf buffer blen tag = find_simple_tlv_loop pf buffer tag 0 blen"

text \<open>The same loop with a bound on the number of passes through its body.\<close>

fun tlv_passes :: "nat \<Rightarrow> platform \<Rightarrow> byte list \<Rightarrow> int \<Rightarrow> nat \<Rightarrow> nat \<Rightarrow> tlv_result option" where
  "tlv_passes 0 pf buf tag s n = None"
| "tlv_passes (Suc k) pf buf tag s n =
     (case tlv_body pf buf tag s n of
        Return r \<Rightarrow> Some r
      | Next s' n' \<Rightarrow> tlv_passes k pf buf tag s' n')"

section \<open>Return codes\<close>

text \<open>
  The values a function of this file returns as its \<open>int\<close>: \<open>GNUPG_Ok\<close> is 0,
  the named codes are the non-zero constants of the error header, and
  \<open>Other_Code\<close> is any other value a backend hands back.
\<close>

datatype gnupg_rc =
    GNUPG_Ok
  | GNUPG_Not_Supported
  | GNUPG_No_PKCS15_App
  | GNUPG_Out_Of_Core
  | GNUPG_Card_Not_Present
  | GNUPG_Card_Removed
  | GNUPG_Invalid_Card
  | GNUPG_Card_Error
  | GNUPG_Invalid_Value
  | GNUPG_Invalid_Index
  | GNUPG_Card_Not_Initialized
  | GNUPG_Unsupported_Operation
  | Other_Code int

text \<open>
  The error codes of the card library are constants of its header; the \<open>switch\<close>
  of \<open>map_sc_err\<close> compares against them in this order.
\<close>

record sc_error_codes =
  SC_ERROR_NOT_SUPPORTED :: int
  SC_ERROR_PKCS15_APP_NOT_FOUND :: int
  SC_ERROR_OUT_OF_MEMORY :: int
  SC_ERROR_CARD_NOT_PRESENT :: int
  SC_ERROR_CARD_REMOVED :: int
  SC_ERROR_INVALID_CARD :: int

definition map_sc_err :: "sc_error_codes \<Rightarrow> int \<Rightarrow> gnupg_rc" where
  "map_sc_err codes rc =
     (if rc = 0 then GNUPG_Ok
      else if rc = SC_ERROR_NOT_SUPPORTED codes then GNUPG_Not_Supported
      else if rc = SC_ERROR_PKCS15_APP_NOT_FOUND codes then GNUPG_No_PKCS15_App
      else if rc = SC_ERROR_OUT_OF_MEMORY codes then GNUPG_Out_Of_Core
      else if rc = SC_ERROR_CARD_NOT_PRESENT codes then GNUPG_Card_Not_Present
      else if rc = SC_ERROR_CARD_REMOVED codes then GNUPG_Card_Removed
      else if rc = SC_ERROR_INVALID_CARD codes then GNUPG_Invalid_Card
      else GNUPG_Card_Error)"

text \<open>The case labels of a \<open>switch\<close> are pairwise different, and none is the 0 of the first case.\<close>

definition sc_codes_distinct :: "sc_error_codes \<Rightarrow> bool" where
  "sc_codes_distinct codes =
     distinct [0, SC_ERROR_NOT_SUPPORTED codes, SC_ERROR_PKCS15_APP_NOT_FOUND codes,
               SC_ERROR_OUT_OF_MEMORY codes, SC_ERROR_CARD_NOT_PRESENT codes,
               SC_ERROR_CARD_REMOVED codes, SC_ERROR_INVALID_CARD codes]"

section \<open>find_iccsn\<close>

text \<open>
  An execution either returns or runs into undefined behaviour (a read outside a
  buffer, a null pointer dereferenced): \<open>Crash\<close>.
\<close>

datatype 'a exec = Crash | Returns 'a

text \<open>\<^verbatim>\<open>sprintf (p, "%02X", *s)\<close> with \<open>*s\<close> an \<open>unsigned char\<close>.\<close>

definition hex_digit :: "nat \<Rightarrow> char" where
  "hex_digit d = ''0123456789ABCDEF'' ! d"

definition sprintf_02X :: "byte \<Rightarrow> string" where
  "sprintf_02X b = [hex_digit (unat b div 16), hex_digit (unat b mod 16)]"

text \<open>Lines 253 to 255: the loop that prints \<open>n\<close> bytes from \<open>s\<close> on.\<close>

fun hex_render :: "byte list \<Rightarrow> nat \<Rightarrow> nat \<Rightarrow> string option" where
  "hex_render buf s 0 = Some []"
| "hex_render buf s (Suc n) =
     (case peek buf s of
        None \<Rightarrow> None
      | Some b \<Rightarrow>
          (case hex_render buf (Suc s) n of
             None \<Rightarrow> None
           | Some r \<Rightarrow> Some (sprintf_02X b @ r)))"

text \<open>
  The result is the return code with the string stored in \<open>*serial\<close>
  (\<open>None\<close>: nothing stored).  \<open>xtrymalloc\<close> tells whether a request of a given
  size succeeds.
\<close>

definition find_iccsn ::
  "platform \<Rightarrow> (nat \<Rightarrow> bool) \<Rightarrow> byte list \<Rightarrow> nat \<Rightarrow> (gnupg_rc \<times> string option) exec" where
  "find_iccsn pf xtrymalloc buffer blen =
     (case find_simple_tlv pf buffer blen 0x5A of
        Bad_Read \<Rightarrow> Crash
      | Null \<Rightarrow> Returns (GNUPG_Card_Error, None)
      | Value s n \<Rightarrow>
          let rest = blen - s in
          if n > rest \<and> \<not> (n = 0x0D \<and> rest + 1 = n) then Returns (GNUPG_Card_Error, None)
          else
            let n = (if n > rest then n - 1 else n) in
            if n = 0 then Returns (GNUPG_Card_Error, None)
            else if \<not> xtrymalloc (2 * n + 1) then Returns (GNUPG_Out_Of_Core, None)
            else (case hex_render buffer s n of
                    None \<Rightarrow> Crash
                  | Some str \<Rightarrow> Returns (GNUPG_Ok, Some str)))"

section \<open>The card session\<close>

text \<open>
  The structures of the card library and of the session are declared in headers;
  the model keeps the fields this file reads or writes.  A pointer is an
  \<open>option\<close>, \<open>None\<close> being the null pointer.
\<close>

record sc_context =
  reader_count :: int

record sc_card =
  driver_name :: string

record sc_pkcs15_card =
  serial_number :: "string option"

datatype sc_file_type = SC_FILE_TYPE_WORKING_EF | Other_File_Type nat

datatype sc_ef_structure = SC_FILE_EF_TRANSPARENT | Other_Ef_Structure nat

record sc_file =
  file_type :: sc_file_type
  ef_structure :: sc_ef_structure
  file_size :: nat

text \<open>
  The function pointers of \<open>card->fnc\<close>: each takes the arguments of the public
  operation and gives back the return code and what it stored through the output
  pointers.
\<close>

type_synonym pin_callback = "string \<Rightarrow> string option"

record card_fnc =
  initialized :: bool
  enum_keypairs :: "(int \<Rightarrow> gnupg_rc \<times> byte list \<times> string option) option"
  read_cert :: "(string \<Rightarrow> gnupg_rc \<times> byte list) option"
  sign :: "(string \<Rightarrow> int \<Rightarrow> pin_callback \<Rightarrow> byte list \<Rightarrow> gnupg_rc \<times> byte list) option"
  decipher :: "(string \<Rightarrow> pin_callback \<Rightarrow> byte list \<Rightarrow> gnupg_rc \<times> byte list) option"

record card =
  reader :: int
  ctx :: "sc_context option"
  scard :: "sc_card option"
  p15card :: "sc_pkcs15_card option"
  fnc :: card_fnc

text \<open>The calls into the card library and the allocator, in the order they are made.\<close>

datatype call =
    Sc_Establish_Context
  | Sc_Detect_Card_Presence
  | Sc_Connect_Card
  | Sc_Lock
  | Sc_Pkcs15_Bind
  | Card_P15_Bind
  | Card_Dinsig_Bind
  | Sc_Select_File
  | Sc_File_Free
  | Sc_Read_Binary
  | Sc_Pkcs15_Unbind
  | Sc_Unlock
  | Sc_Disconnect_Card
  | Sc_Release_Context
  | Xfree_Card

text \<open>
  What the card library and the allocator answer.  A call with an output pointer
  answers its return code and what the pointer holds afterwards; \<open>read_binary\<close>
  answers, for the count asked, its return code and the 256 bytes of \<open>buf\<close> after
  the call.
\<close>

record sc_env =
  error_codes :: sc_error_codes
  xtrycalloc_card :: bool
  establish_context :: "int \<times> sc_context option"
  detect_card_presence :: int
  connect_card :: "int \<times> sc_card option"
  lock :: int
  pkcs15_bind :: "int \<times> sc_pkcs15_card option"
  p15_functions :: card_fnc
  dinsig_functions :: card_fnc
  select_file :: "int \<times> sc_file"
  read_binary :: "nat \<Rightarrow> int \<times> byte list"
  xtrymalloc :: "nat \<Rightarrow> bool"

subsection \<open>card_close and card_open\<close>


text \<open>The block \<open>xtrycalloc\<close> returns is zeroed.\<close>

definition zeroed_card :: card where
  "zeroed_card =
     \<lparr>reader = 0, ctx = None, scard = None, p15card = None,
      fnc = \<lparr>initialized = False, enum_keypairs = None, read_cert = None,
             sign = None, decipher = None\<rparr>\<rparr>"




subsection \<open>card_get_serial_and_stamp\<close>

text \<open>
  Modelled from the spec: \<open>card_p15_bind\<close> and \<open>card_dinsig_bind\<close> are defined in
  other files of the repository.  They select the variant (the standard
  application, the fallback application) by storing the variant's implementations
  of the four operations in \<open>card->fnc\<close>; an operation the variant lacks stays null.
\<close>

definition install :: "card_fnc \<Rightarrow> card \<Rightarrow> card" where
  "install table crd =
     crd\<lparr>fnc := (fnc crd)\<lparr>enum_keypairs := enum_keypairs table,
                            read_cert := read_cert table,
                            sign := sign table,
                            decipher := decipher table\<rparr>\<rparr>"

definition card_p15_bind :: "sc_env \<Rightarrow> card \<Rightarrow> card" where
  "card_p15_bind env crd = install (p15_functions env) crd"

definition card_dinsig_bind :: "sc_env \<Rightarrow> card \<Rightarrow> card" where
  "card_dinsig_bind env crd = install (dinsig_functions env) crd"

definition set_initialized :: "card \<Rightarrow> card" where
  "set_initialized crd = crd\<lparr>fnc := (fnc crd)\<lparr>initialized := True\<rparr>\<rparr>"

text \<open>Lines 283 to 302: the first use binds the backend.\<close>

definition bind_backend :: "sc_env \<Rightarrow> card \<Rightarrow> card \<times> call list" where
  "bind_backend env crd =
     (if initialized (fnc crd) then (crd, [])
      else
        let crd = set_initialized crd;
            rc = fst (pkcs15_bind env);
            crd = crd\<lparr>p15card := snd (pkcs15_bind env)\<rparr>;
            crd = (if rc \<noteq> 0 then crd\<lparr>p15card := None\<rparr> else crd)
        in
        if p15card crd \<noteq> None
        then (set_initialized (card_p15_bind env crd), [Sc_Pkcs15_Bind, Card_P15_Bind])
        else (set_initialized (card_dinsig_bind env crd), [Sc_Pkcs15_Bind, Card_Dinsig_Bind]))"

text \<open>
  Lines 310 to 344: select the file 3F002F02 and read it into \<open>buf\<close>.  \<open>Inr\<close> is
  \<open>buf\<close> with \<open>buflen\<close>.
\<close>

definition read_gdo :: "sc_env \<Rightarrow> (gnupg_rc + byte list \<times> nat) \<times> call list" where
  "read_gdo env =
     (let rc = fst (select_file env); file = snd (select_file env) in
      if rc \<noteq> 0 then (Inl GNUPG_Card_Error, [Sc_Select_File])
      else if file_type file \<noteq> SC_FILE_TYPE_WORKING_EF
              \<or> ef_structure file \<noteq> SC_FILE_EF_TRANSPARENT
      then (Inl GNUPG_Card_Error, [Sc_Select_File, Sc_File_Free])
      else if file_size file = 0 \<or> file_size file \<ge> 256
      then (Inl GNUPG_Card_Error, [Sc_Select_File, Sc_File_Free])
      else
        let buflen = file_size file;
            rc = fst (read_binary env buflen);
            buf = snd (read_binary env buflen)
        in
        if rc < 0 then (Inl GNUPG_Card_Error, [Sc_Select_File, Sc_Read_Binary, Sc_File_Free])
        else if rc \<noteq> int buflen
        then (Inl GNUPG_Card_Error, [Sc_Select_File, Sc_Read_Binary, Sc_File_Free])
        else (Inr (buf, buflen), [Sc_Select_File, Sc_Read_Binary, Sc_File_Free]))"

text \<open>\<^verbatim>\<open>**serial == 'F' && (*serial)[1] == 'F'\<close> on a string that ends with a null.\<close>

definition starts_with_FF :: "string \<Rightarrow> bool" where
  "starts_with_FF str =
     (case str of
        a # b # _ \<Rightarrow> a = CHR ''F'' \<and> b = CHR ''F''
      | _ \<Rightarrow> False)"

text \<open>\<^verbatim>\<open>card->p15card->serial_number\<close>, the empty string when it is null.\<close>

definition efser :: "sc_pkcs15_card \<Rightarrow> string" where
  "efser p15 = (case serial_number p15 of None \<Rightarrow> [] | Some e \<Rightarrow> e)"

text \<open>Lines 349 to 388: the two prefixes, on the result of \<open>find_iccsn\<close>.\<close>

definition serial_prefix ::
  "sc_env \<Rightarrow> card \<Rightarrow> (gnupg_rc \<times> string option) exec \<Rightarrow> (gnupg_rc \<times> string option) exec" where
  "serial_prefix env crd r =
     (case r of
        Crash \<Rightarrow> Crash
      | Returns (rc, None) \<Rightarrow> if rc = GNUPG_Ok then Crash else Returns (rc, None)
      | Returns (rc, Some str) \<Rightarrow>
          (case (if rc = GNUPG_Ok \<and> str = ''D27600000000000000000000''
                 then p15card crd else None) of
             Some p15 \<Rightarrow>
               if \<not> xtrymalloc env (length (efser p15) + 7)
               then Returns (GNUPG_Out_Of_Core, None)
               else Returns (GNUPG_Ok, Some (''FF0100'' @ efser p15))
           | None \<Rightarrow>
               if rc = GNUPG_Ok \<and> starts_with_FF str
               then
                 if \<not> xtrymalloc env (length str + 7)
                 then Returns (GNUPG_Out_Of_Core, None)
                 else Returns (GNUPG_Ok, Some (''FF0000'' @ str))
               else Returns (rc, Some str)))"

text \<open>
  The result: the return code with the string stored in \<open>*serial\<close>, the value
  stored in \<open>*stamp\<close> (\<open>None\<close>: nothing stored), the session afterwards and the
  calls made.
\<close>

record serial_result =
  serial_rc :: "(gnupg_rc \<times> string option) exec"
  stamp :: "int option"
  card_after :: "card option"
  serial_calls :: "call list"

definition card_get_serial_and_stamp ::
  "platform \<Rightarrow> sc_env \<Rightarrow> card option \<Rightarrow> bool \<Rightarrow> bool \<Rightarrow> serial_result" where
  "card_get_serial_and_stamp pf env c serial_ptr stamp_ptr =
     (case c of
        None \<Rightarrow>
          \<lparr>serial_rc = Returns (GNUPG_Invalid_Value, None), stamp = None,
           card_after = None, serial_calls = []\<rparr>
      | Some crd0 \<Rightarrow>
          if \<not> serial_ptr \<or> \<not> stamp_ptr
          then \<lparr>serial_rc = Returns (GNUPG_Invalid_Value, None), stamp = None,
                card_after = Some crd0, serial_calls = []\<rparr>
          else
            let crd = fst (bind_backend env crd0);
                calls = snd (bind_backend env crd0)
            in
            (case fst (read_gdo env) of
               Inl rc \<Rightarrow>
                 \<lparr>serial_rc = Returns (rc, None), stamp = Some 0,
                  card_after = Some crd, serial_calls = calls @ snd (read_gdo env)\<rparr>
             | Inr (buf, buflen) \<Rightarrow>
                 \<lparr>serial_rc =
                    serial_prefix env crd (find_iccsn pf (xtrymalloc env) buf buflen),
                  stamp = Some 0,
                  card_after = Some crd, serial_calls = calls @ snd (read_gdo env)\<rparr>))"

subsection \<open>The four operations\<close>





subsection \<open>A session as a sequence of calls\<close>




section \<open>Counting the passes of the scanner\<close>

text \<open>
  The number of times the body of the loop of \<open>find_simple_tlv\<close> runs, the pass
  that returns included.
\<close>

function tlv_iterations :: "platform \<Rightarrow> byte list \<Rightarrow> int \<Rightarrow> nat \<Rightarrow> nat \<Rightarrow> nat" where
  "tlv_iterations pf buf tag s n =
     (case tlv_body pf buf tag s n of
        Return r \<Rightarrow> 1
      | Next s' n' \<Rightarrow> Suc (tlv_iterations pf buf tag s' n'))"
  by pat_completeness auto
termination
  by (relation "measure (\<lambda>(pf, buf, tag, s, n). n)")
     (auto simp: tlv_body_def tlv_length_def tlv_match_def Let_def
           split: if_splits option.splits tlv_header.splits)

declare tlv_iterations.simps [simp del]

section \<open>Well-formed buffers\<close>

text \<open>
  The format as the specification words it: a record is a tag of one byte, a
  length of one byte, or of the byte FF and two bytes in big-endian order, and
  the value.
\<close>

record tlv_record =
  rec_tag :: byte
  rec_extended :: bool
  rec_value :: "byte list"

definition spec_header :: "tlv_record \<Rightarrow> byte list" where
  "spec_header r =
     (if rec_extended r
      then [rec_tag r, 0xFF, of_nat (length (rec_value r) div 256),
            of_nat (length (rec_value r) mod 256)]
      else [rec_tag r, of_nat (length (rec_value r))])"

definition spec_encode_record :: "tlv_record \<Rightarrow> byte list" where
  "spec_encode_record r = spec_header r @ rec_value r"

definition spec_well_formed :: "tlv_record \<Rightarrow> bool" where
  "spec_well_formed r =
     (if rec_extended r then length (rec_value r) < 65536 else length (rec_value r) < 255)"

definition spec_encode :: "tlv_record list \<Rightarrow> byte list" where
  "spec_encode rs = concat (map spec_encode_record rs)"

text \<open>
  The length fields the platform reads as the specification words them: every one
  where plain \<open>char\<close> is unsigned, and only a single byte below 80 where it is
  signed.
\<close>

definition length_readable :: "platform \<Rightarrow> tlv_record \<Rightarrow> bool" where
  "length_readable pf r =
     (spec_well_formed r \<and> 16 \<le> size_bits pf
      \<and> (char_signed pf \<longrightarrow> \<not> rec_extended r \<and> length (rec_value r) < 128))"

text \<open>What the specification asks of the scanner on the records from offset \<open>off\<close> on.\<close>

fun spec_scan :: "int \<Rightarrow> nat \<Rightarrow> tlv_record list \<Rightarrow> tlv_result" where
  "spec_scan tag off [] = Null"
| "spec_scan tag off (r # rs) =
     (if uint (rec_tag r) = tag
      then Value (off + length (spec_header r)) (length (rec_value r))
      else spec_scan tag (off + length (spec_encode_record r)) rs)"

section \<open>Sample platforms and cards\<close>

definition unsigned_char_platform :: platform where
  "unsigned_char_platform = \<lparr>char_signed = False, size_bits = 64\<rparr>"

definition signed_char_platform :: platform where
  "signed_char_platform = \<lparr>char_signed = True, size_bits = 64\<rparr>"

definition sample_codes :: sc_error_codes where
  "sample_codes =
     \<lparr>SC_ERROR_NOT_SUPPORTED = - 1408, SC_ERROR_PKCS15_APP_NOT_FOUND = - 1503,
      SC_ERROR_OUT_OF_MEMORY = - 1404, SC_ERROR_CARD_NOT_PRESENT = - 1104,
      SC_ERROR_CARD_REMOVED = - 1105, SC_ERROR_INVALID_CARD = - 1210\<rparr>"

definition no_functions :: card_fnc where
  "no_functions =
     \<lparr>initialized = False, enum_keypairs = None, read_cert = None, sign = None,
      decipher = None\<rparr>"

text \<open>
  A reader with a card whose file 3F002F02 holds the bytes \<open>gdo\<close> and whose
  PKCS-15 application reports the serial number \<open>ABC123\<close>.
\<close>

definition sample_env :: "byte list \<Rightarrow> sc_env" where
  "sample_env gdo =
     \<lparr>error_codes = sample_codes,
      xtrycalloc_card = True,
      establish_context = (0, Some \<lparr>reader_count = 1\<rparr>),
      detect_card_presence = 1,
      connect_card = (0, Some \<lparr>driver_name = ''sample''\<rparr>),
      lock = 0,
      pkcs15_bind = (0, Some \<lparr>serial_number = Some ''ABC123''\<rparr>),
      p15_functions = no_functions,
      dinsig_functions = no_functions,
      select_file =
        (0, \<lparr>file_type = SC_FILE_TYPE_WORKING_EF, ef_structure = SC_FILE_EF_TRANSPARENT,
             file_size = length gdo\<rparr>),
      read_binary = (\<lambda>n. (int n, gdo @ replicate (256 - length gdo) 0)),
      xtrymalloc = (\<lambda>n. True)\<rparr>"

section \<open>Facts about the scanner\<close>

lemma tlv_length_Header:
  "tlv_length pf buf s n = Header s1 n1 len \<Longrightarrow> s1 + n1 = s + n \<and> n1 + 2 \<le> n \<and> s + 2 \<le> s1"
  by (auto simp: tlv_length_def Let_def split: if_splits option.splits)

lemma tlv_length_in_bounds:
  "s + n \<le> length buf \<Longrightarrow> tlv_length pf buf s n \<noteq> Header_Bad_Read"
  by (auto simp: tlv_length_def peek_def Let_def split: if_splits option.splits)

lemma tlv_body_Next:
  "tlv_body pf buf tag s n = Next s' n' \<Longrightarrow> s' + n' = s + n \<and> n' + 2 \<le> n"
  by (auto simp: tlv_body_def tlv_match_def split: tlv_header.splits option.splits if_splits
           dest!: tlv_length_Header)

lemma tlv_body_in_bounds:
  "s + n \<le> length buf \<Longrightarrow> tlv_body pf buf tag s n \<noteq> Return Bad_Read"
  using tlv_length_in_bounds [of s n buf pf]
  by (auto simp: tlv_body_def tlv_match_def peek_def split: tlv_header.splits option.splits if_splits
           dest!: tlv_length_Header)

lemma tlv_body_Value:
  "tlv_body pf buf tag s n = Return (Value off len) \<Longrightarrow> s + 2 \<le> off \<and> off \<le> s + n"
  by (auto simp: tlv_body_def tlv_match_def split: tlv_header.splits option.splits if_splits
           dest!: tlv_length_Header)

lemma loop_in_bounds:
  "s + n \<le> length buf \<Longrightarrow> find_simple_tlv_loop pf buf tag s n \<noteq> Bad_Read"
proof (induction pf buf tag s n rule: find_simple_tlv_loop.induct)
  case (1 pf buf tag s n)
  show ?case
  proof (cases "tlv_body pf buf tag s n")
    case (Return r)
    with tlv_body_in_bounds [OF "1.prems", of pf tag] show ?thesis
      by (simp add: find_simple_tlv_loop.simps [of pf buf tag s n])
  next
    case (Next s' n')
    from tlv_body_Next [OF Next] "1.prems" have "s' + n' \<le> length buf" by simp
    with "1.IH" [OF Next] Next show ?thesis
      by (simp add: find_simple_tlv_loop.simps [of pf buf tag s n])
  qed
qed

lemma loop_Value:
  "find_simple_tlv_loop pf buf tag s n = Value off len \<Longrightarrow> s + 2 \<le> off \<and> off \<le> s + n"
proof (induction pf buf tag s n rule: find_simple_tlv_loop.induct)
  case (1 pf buf tag s n)
  show ?case
  proof (cases "tlv_body pf buf tag s n")
    case (Return r)
    with "1.prems" have "tlv_body pf buf tag s n = Return (Value off len)"
      by (simp add: find_simple_tlv_loop.simps [of pf buf tag s n])
    then show ?thesis by (rule tlv_body_Value)
  next
    case (Next s' n')
    with "1.prems" have "find_simple_tlv_loop pf buf tag s' n' = Value off len"
      by (simp add: find_simple_tlv_loop.simps [of pf buf tag s n])
    from "1.IH" [OF Next this] tlv_body_Next [OF Next] show ?thesis by simp
  qed
qed

lemma passes_enough:
  "n div 2 < k \<Longrightarrow> tlv_passes k pf buf tag s n = Some (find_simple_tlv_loop pf buf tag s n)"
proof (induction k arbitrary: s n)
  case 0
  then show ?case by simp
next
  case (Suc k)
  show ?case
  proof (cases "tlv_body pf buf tag s n")
    case (Return r)
    then show ?thesis by (simp add: find_simple_tlv_loop.simps [of pf buf tag s n])
  next
    case (Next s' n')
    from tlv_body_Next [OF Next] Suc.prems have "n' div 2 < k" by arith
    from Suc.IH [OF this] Next show ?thesis
      by (simp add: find_simple_tlv_loop.simps [of pf buf tag s n])
  qed
qed

lemma iterations_bound: "tlv_iterations pf buf tag s n \<le> n div 2 + 1"
proof (induction pf buf tag s n rule: tlv_iterations.induct)
  case (1 pf buf tag s n)
  show ?case
  proof (cases "tlv_body pf buf tag s n")
    case (Return r)
    then show ?thesis by (simp add: tlv_iterations.simps [of pf buf tag s n])
  next
    case (Next s' n')
    from "1.IH" [OF Next] tlv_body_Next [OF Next]
    have "Suc (tlv_iterations pf buf tag s' n') \<le> n div 2 + 1" by arith
    with Next show ?thesis
      by (simp add: tlv_iterations.simps [of pf buf tag s n])
  qed
qed

lemma hex_render_Some:
  "s + n \<le> length buf \<Longrightarrow>
   hex_render buf s n = Some (concat (map sprintf_02X (take n (drop s buf))))"
proof (induction n arbitrary: s)
  case 0
  then show ?case by simp
next
  case (Suc n)
  then have s: "s < length buf" and "Suc s + n \<le> length buf" by simp_all
  from s have "drop s buf = buf ! s # drop (Suc s) buf"
    by (simp add: Cons_nth_drop_Suc)
  with Suc.IH [OF \<open>Suc s + n \<le> length buf\<close>] s show ?case
    by (simp add: peek_def)
qed

section \<open>Termination of the scanner\<close>

text \<open>
  Claim C10, as stated, at the buffer 01 00 02 00 of length 4 with the target tag
  5A: the two records of length 0 take a pass each and a third pass returns, so
  the body of the loop runs 3 times, which is more than 4 div 2; two passes do
  not reach the return.  On the empty buffer the body runs once, against 0.
\<close>

theorem iterations_bound_counterexample:
  "tlv_iterations unsigned_char_platform [1, 0, 2, 0] 0x5A 0 4 = 3
   \<and> \<not> tlv_iterations unsigned_char_platform [1, 0, 2, 0] 0x5A 0 4 \<le> 4 div 2
   \<and> tlv_passes (4 div 2) unsigned_char_platform [1, 0, 2, 0] 0x5A 0 4 = None
   \<and> tlv_iterations unsigned_char_platform [] 0x5A 0 0 = 1"
  by code_simp

text \<open>
  Claim C10, amended.  For every platform, buffer, length and tag, also when records
  declare the length 0: a pass through the loop of \<open>find_simple_tlv\<close> that does not
  return leaves at least two bytes fewer, so the loop ends; the body runs at most
  \<open>length div 2 + 1\<close> times, the last run being the one that returns, and within
  that many passes the loop returns the result of \<open>find_simple_tlv\<close>.
\<close>

theorem find_simple_tlv_terminates:
  "(\<forall>s n s' n'. tlv_body pf buf tag s n = Next s' n' \<longrightarrow> n' + 2 \<le> n)
   \<and> tlv_passes (blen div 2 + 1) pf buf tag 0 blen = Some (find_simple_tlv pf buf blen tag)
   \<and> tlv_iterations pf buf tag 0 blen \<le> blen div 2 + 1"
proof (intro conjI allI impI)
  fix s n s' n'
  assume "tlv_body pf buf tag s n = Next s' n'"
  from tlv_body_Next [OF this] show "n' + 2 \<le> n" by simp
next
  show "tlv_passes (blen div 2 + 1) pf buf tag 0 blen = Some (find_simple_tlv pf buf blen tag)"
    unfolding find_simple_tlv_def by (rule passes_enough) simp
next
  show "tlv_iterations pf buf tag 0 blen \<le> blen div 2 + 1" by (rule iterations_bound)
qed

text \<open>Two records of length 0 before the end of the buffer: the third pass returns.\<close>

theorem find_simple_tlv_terminates_witness:
  "tlv_body unsigned_char_platform [1, 0, 2, 0] 0x5A 0 4 = Next 2 2
   \<and> (2::nat) + 2 \<le> 4
   \<and> tlv_passes 3 unsigned_char_platform [1, 0, 2, 0] 0x5A 0 4 = Some Null
   \<and> find_simple_tlv unsigned_char_platform [1, 0, 2, 0] 4 0x5A = Null
   \<and> tlv_iterations unsigned_char_platform [1, 0, 2, 0] 0x5A 0 4 \<le> 3"
  using find_simple_tlv_terminates [of unsigned_char_platform "[1, 0, 2, 0]" "0x5A" 4]
  by (simp add: tlv_body_def tlv_length_def tlv_match_def peek_def unsigned_char_platform_def
        char_value_def to_size_t_def find_simple_tlv_def find_simple_tlv_loop.simps)

lemma find_simple_tlv_in_bounds:
  "blen \<le> length buf \<Longrightarrow> find_simple_tlv pf buf blen tag \<noteq> Bad_Read"
  unfolding find_simple_tlv_def by (rule loop_in_bounds) simp

lemma find_simple_tlv_Value:
  "find_simple_tlv pf buf blen tag = Value off len \<Longrightarrow> 2 \<le> off \<and> off \<le> blen"
  unfolding find_simple_tlv_def by (drule loop_Value) simp

lemma find_iccsn_overlong:
  assumes "find_simple_tlv pf buf blen 0x5A = Value off len"
    and "blen - off < len" and "\<not> (len = 13 \<and> blen - off = 12)"
  shows "find_iccsn pf alloc buf blen = Returns (GNUPG_Card_Error, None)"
  using assms by (auto simp: find_iccsn_def Let_def)

lemma find_iccsn_fits:
  assumes "blen \<le> length buf"
    and "find_simple_tlv pf buf blen 0x5A = Value off len"
    and "0 < len" and "len \<le> blen - off" and "alloc (2 * len + 1)"
  shows "find_iccsn pf alloc buf blen =
           Returns (GNUPG_Ok, Some (concat (map sprintf_02X (take len (drop off buf)))))"
proof -
  from find_simple_tlv_Value [OF assms(2)] assms(1,4) have "off + len \<le> length buf" by arith
  from hex_render_Some [OF this] assms show ?thesis
    by (simp add: find_iccsn_def Let_def)
qed

lemma find_iccsn_short_by_one:
  assumes "blen \<le> length buf"
    and "find_simple_tlv pf buf blen 0x5A = Value off 13"
    and "blen - off = 12" and "alloc 25"
  shows "find_iccsn pf alloc buf blen =
           Returns (GNUPG_Ok, Some (concat (map sprintf_02X (take 12 (drop off buf)))))"
proof -
  from find_simple_tlv_Value [OF assms(2)] assms(1,3) have "off + 12 \<le> length buf" by arith
  from hex_render_Some [OF this] assms show ?thesis
    by (simp add: find_iccsn_def Let_def)
qed

lemma find_iccsn_no_crash:
  assumes "blen \<le> length buf"
  shows "find_iccsn pf alloc buf blen \<noteq> Crash"
proof (cases "find_simple_tlv pf buf blen 0x5A")
  case Bad_Read
  with find_simple_tlv_in_bounds [OF assms, of pf "0x5A"] show ?thesis by simp
next
  case Null
  then show ?thesis by (simp add: find_iccsn_def)
next
  case (Value off len)
  from find_simple_tlv_Value [OF Value] assms have off: "off \<le> blen" "blen \<le> length buf" by simp_all
  show ?thesis
  proof (cases "blen - off < len")
    case True
    show ?thesis
    proof (cases "len = 13 \<and> blen - off = 12")
      case True
      with off have "off + 12 \<le> length buf" by arith
      from hex_render_Some [OF this] Value True show ?thesis
        by (simp add: find_iccsn_def Let_def)
    next
      case False
      with find_iccsn_overlong [OF Value \<open>blen - off < len\<close>] show ?thesis by simp
    qed
  next
    case False
    with off have "off + len \<le> length buf" by arith
    from hex_render_Some [OF this] Value False show ?thesis
      by (simp add: find_iccsn_def Let_def)
  qed
qed

lemma loop_overlong:
  assumes "s + n \<le> length buf"
    and "tlv_length pf buf s n = Header s1 n1 len" and "n1 < len"
  shows "find_simple_tlv_loop pf buf tag s n = (if uint (buf ! s) = tag then Value s1 len else Null)"
proof -
  from tlv_length_Header [OF assms(2)] assms(1) have "s < length buf" by simp
  with assms show ?thesis
    by (simp add: find_simple_tlv_loop.simps [of pf buf tag s n] tlv_body_def tlv_match_def peek_def)
qed
lemma sprintf_02X_digits: "set (sprintf_02X b) \<subseteq> set ''0123456789ABCDEF''"
proof -
  have digit: "d < 16 \<Longrightarrow> hex_digit d \<in> set ''0123456789ABCDEF''" for d
    unfolding hex_digit_def by (rule nth_mem) simp
  have "unat b < 2 ^ LENGTH(8)" by (rule unsigned_less)
  then have "unat b < 256" by simp
  then have "unat b div 16 < 16" and "unat b mod 16 < 16" by arith+
  from digit [OF this(1)] digit [OF this(2)] show ?thesis
    unfolding sprintf_02X_def by simp
qed

lemma hex_string_digits: "set (concat (map sprintf_02X bs)) \<subseteq> set ''0123456789ABCDEF''"
  using sprintf_02X_digits by (induction bs) auto

lemma hex_string_length: "length (concat (map sprintf_02X bs)) = 2 * length bs"
  by (induction bs) (simp_all add: sprintf_02X_def)

section \<open>Records longer than the buffer\<close>

text \<open>
  Claim C1, as stated, at the buffer 5A 05 01 with the target tag 5A: the record
  declares 5 value bytes where one is left, and the scan does not fail; it
  returns the value pointer with the declared length.
\<close>

theorem overlong_matching_record_counterexample:
  "find_simple_tlv unsigned_char_platform [0x5A, 0x05, 0x01] 3 0x5A \<noteq> Null
   \<and> find_simple_tlv unsigned_char_platform [0x5A, 0x05, 0x01] 3 0x5A = Value 2 5"
  by (simp add: find_simple_tlv_def find_simple_tlv_loop.simps tlv_body_def tlv_length_def
        tlv_match_def peek_def unsigned_char_platform_def char_value_def to_size_t_def)

text \<open>
  Claim C1, amended.  For a buffer that holds at least \<open>length\<close> bytes, on every
  platform and for every tag: neither \<open>find_simple_tlv\<close> nor \<open>find_iccsn\<close> reads a
  byte outside the buffer.  When the scan reaches a record whose declared length
  exceeds the bytes left after its length field, it fails if the tag of the record
  is not the target; if the tag is the target, \<open>find_simple_tlv\<close> returns the value
  pointer and the declared length unchecked, and it is \<open>find_iccsn\<close> that fails
  with \<open>GNUPG_Card_Error\<close> (the declared length 13 with 12 bytes left apart).
\<close>

theorem overlong_record_handling:
  assumes "blen \<le> length buf"
  shows "find_simple_tlv pf buf blen tag \<noteq> Bad_Read
    \<and> find_iccsn pf alloc buf blen \<noteq> Crash
    \<and> (\<forall>s n s1 n1 len.
          s + n \<le> length buf \<and> tlv_length pf buf s n = Header s1 n1 len \<and> n1 < len \<longrightarrow>
          find_simple_tlv_loop pf buf tag s n
            = (if uint (buf ! s) = tag then Value s1 len else Null))
    \<and> (\<forall>off len.
          find_simple_tlv pf buf blen 0x5A = Value off len \<and> blen - off < len
            \<and> \<not> (len = 13 \<and> blen - off = 12) \<longrightarrow>
          find_iccsn pf alloc buf blen = Returns (GNUPG_Card_Error, None))"
  using find_simple_tlv_in_bounds [OF assms] find_iccsn_no_crash [OF assms]
  by (auto simp: loop_overlong find_iccsn_overlong)

theorem overlong_record_handling_witness:
  "(3::nat) \<le> length [0x5A, 0x05, 0x01 :: byte]
   \<and> find_simple_tlv unsigned_char_platform [0x5A, 0x05, 0x01] 3 0x4F \<noteq> Bad_Read
   \<and> tlv_length unsigned_char_platform [0x5A, 0x05, 0x01] 0 3 = Header 2 1 5
   \<and> find_simple_tlv_loop unsigned_char_platform [0x5A, 0x05, 0x01] 0x4F 0 3 = Null
   \<and> find_simple_tlv unsigned_char_platform [0x5A, 0x05, 0x01] 3 0x5A = Value 2 5
   \<and> find_iccsn unsigned_char_platform (\<lambda>n. True) [0x5A, 0x05, 0x01] 3
        = Returns (GNUPG_Card_Error, None)"
proof -
  have fits: "(3::nat) \<le> length [0x5A, 0x05, 0x01 :: byte]" by simp
  have header: "tlv_length unsigned_char_platform [0x5A, 0x05, 0x01] 0 3 = Header 2 1 5"
    by (simp add: tlv_length_def peek_def unsigned_char_platform_def char_value_def
          to_size_t_def)
  have found: "find_simple_tlv unsigned_char_platform [0x5A, 0x05, 0x01] 3 0x5A = Value 2 5"
    by (simp add: find_simple_tlv_def find_simple_tlv_loop.simps tlv_body_def header
          tlv_match_def peek_def)
  note fact = overlong_record_handling [OF fits, of unsigned_char_platform "0x4F" "\<lambda>n. True"]
  from fact have "find_simple_tlv unsigned_char_platform [0x5A, 0x05, 0x01] 3 0x4F \<noteq> Bad_Read"
    by blast
  moreover from fact
  have "0 + 3 \<le> length [0x5A, 0x05, 0x01 :: byte]
          \<and> tlv_length unsigned_char_platform [0x5A, 0x05, 0x01] 0 3 = Header 2 1 5
          \<and> (1::nat) < 5 \<longrightarrow>
        find_simple_tlv_loop unsigned_char_platform [0x5A, 0x05, 0x01] 0x4F 0 3
          = (if uint ([0x5A, 0x05, 0x01 :: byte] ! 0) = 0x4F then Value 2 5 else Null)"
    by blast
  with header
  have "find_simple_tlv_loop unsigned_char_platform [0x5A, 0x05, 0x01] 0x4F 0 3 = Null"
    by simp
  moreover from fact
  have "find_simple_tlv unsigned_char_platform [0x5A, 0x05, 0x01] 3 0x5A = Value 2 5
          \<and> (3::nat) - 2 < 5 \<and> \<not> ((5::nat) = 13 \<and> (3::nat) - 2 = 12) \<longrightarrow>
        find_iccsn unsigned_char_platform (\<lambda>n. True) [0x5A, 0x05, 0x01] 3
          = Returns (GNUPG_Card_Error, None)"
    by blast
  with found
  have "find_iccsn unsigned_char_platform (\<lambda>n. True) [0x5A, 0x05, 0x01] 3
          = Returns (GNUPG_Card_Error, None)"
    by simp
  ultimately show ?thesis using fits header found by blast
qed

section \<open>The serial number of the identity file\<close>

text \<open>
  What \<open>find_iccsn\<close> does with the pointer and the length the scanner returns.  A
  declared length that exceeds the bytes left: with the length 13 and 12 bytes
  left, the 12 bytes are printed; every other case is \<open>GNUPG_Card_Error\<close>.
\<close>

lemma find_iccsn_over_long_value:
  assumes "blen \<le> length buf"
    and "find_simple_tlv pf buf blen 0x5A = Value off len"
    and "blen - off < len"
  shows "(len = 13 \<and> blen - off = 12 \<and> alloc 25 \<longrightarrow>
            find_iccsn pf alloc buf blen
              = Returns (GNUPG_Ok, Some (concat (map sprintf_02X (take 12 (drop off buf))))))
    \<and> (\<not> (len = 13 \<and> blen - off = 12) \<longrightarrow>
            find_iccsn pf alloc buf blen = Returns (GNUPG_Card_Error, None))"
  using assms by (auto simp: find_iccsn_short_by_one find_iccsn_overlong)

text \<open>
  A value that passes the length checks is printed byte by byte, two digits out
  of 0-9 and A-F each, and no character of the string is the null.
\<close>

lemma find_iccsn_hex_of_value:
  assumes "blen \<le> length buf"
    and "find_simple_tlv pf buf blen 0x5A = Value off len"
    and "len \<le> blen - off \<or> (len = 13 \<and> blen - off = 12)"
    and "m = (if len \<le> blen - off then len else 12)"
    and "0 < m" and "alloc (2 * m + 1)"
  shows "\<exists>str. find_iccsn pf alloc buf blen = Returns (GNUPG_Ok, Some str)
    \<and> str = concat (map sprintf_02X (take m (drop off buf)))
    \<and> length str = 2 * m
    \<and> (\<forall>b. length (sprintf_02X b) = 2)
    \<and> set str \<subseteq> set ''0123456789ABCDEF''
    \<and> CHR 0x00 \<notin> set str"
proof -
  let ?str = "concat (map sprintf_02X (take m (drop off buf)))"
  from find_simple_tlv_Value [OF assms(2)] assms(1,3,4) have "off + m \<le> length buf"
    by (auto split: if_splits)
  then have "length (take m (drop off buf)) = m" by simp
  then have len: "length ?str = 2 * m" by (simp add: hex_string_length)
  have digits: "set ?str \<subseteq> set ''0123456789ABCDEF''" by (rule hex_string_digits)
  have "CHR 0x00 \<notin> set ''0123456789ABCDEF''" by simp
  with digits have "CHR 0x00 \<notin> set ?str" by blast
  moreover have "find_iccsn pf alloc buf blen = Returns (GNUPG_Ok, Some ?str)"
  proof (cases "len \<le> blen - off")
    case True
    with assms(4) have "m = len" by simp
    with assms True show ?thesis by (simp add: find_iccsn_fits)
  next
    case False
    with assms(3,4) have "len = 13" "blen - off = 12" "m = 12" by simp_all
    with assms show ?thesis by (simp add: find_iccsn_short_by_one)
  qed
  ultimately show ?thesis using len digits
    by (simp add: sprintf_02X_def)
qed

section \<open>The error mapper\<close>

text \<open>
  Claim C8.  \<open>map_sc_err\<close> is a function of the code alone and gives every code
  exactly one value: success to success, each of the six codes of its \<open>switch\<close>
  to the code named for it, and every other code to \<open>GNUPG_Card_Error\<close>.
\<close>

theorem map_sc_err_total:
  assumes "sc_codes_distinct codes"
  shows "map_sc_err codes 0 = GNUPG_Ok
    \<and> map_sc_err codes (SC_ERROR_NOT_SUPPORTED codes) = GNUPG_Not_Supported
    \<and> map_sc_err codes (SC_ERROR_PKCS15_APP_NOT_FOUND codes) = GNUPG_No_PKCS15_App
    \<and> map_sc_err codes (SC_ERROR_OUT_OF_MEMORY codes) = GNUPG_Out_Of_Core
    \<and> map_sc_err codes (SC_ERROR_CARD_NOT_PRESENT codes) = GNUPG_Card_Not_Present
    \<and> map_sc_err codes (SC_ERROR_CARD_REMOVED codes) = GNUPG_Card_Removed
    \<and> map_sc_err codes (SC_ERROR_INVALID_CARD codes) = GNUPG_Invalid_Card
    \<and> (\<forall>rc. rc \<notin> {0, SC_ERROR_NOT_SUPPORTED codes, SC_ERROR_PKCS15_APP_NOT_FOUND codes,
                    SC_ERROR_OUT_OF_MEMORY codes, SC_ERROR_CARD_NOT_PRESENT codes,
                    SC_ERROR_CARD_REMOVED codes, SC_ERROR_INVALID_CARD codes} \<longrightarrow>
              map_sc_err codes rc = GNUPG_Card_Error)
    \<and> (\<forall>rc. \<exists>!v. map_sc_err codes rc = v)
    \<and> (\<forall>rc. rc \<noteq> 0 \<longrightarrow> map_sc_err codes rc \<noteq> GNUPG_Ok)"
  using assms by (auto simp: map_sc_err_def sc_codes_distinct_def)

theorem map_sc_err_total_witness:
  "sc_codes_distinct sample_codes
   \<and> map_sc_err sample_codes (- 1104) = GNUPG_Card_Not_Present
   \<and> map_sc_err sample_codes (- 1900) = GNUPG_Card_Error
   \<and> map_sc_err sample_codes 7 = GNUPG_Card_Error"
proof -
  have distinct: "sc_codes_distinct sample_codes"
    by (simp add: sc_codes_distinct_def sample_codes_def)
  from map_sc_err_total [OF distinct] show ?thesis
    using distinct by (simp add: sample_codes_def)
qed

section \<open>Opening and closing a session\<close>








section \<open>Binding the backend\<close>














section \<open>The prefixes of the serial number\<close>

lemma serial_rc_read:
  assumes "fst (read_gdo env) = Inr (buf, buflen)"
  shows "serial_rc (card_get_serial_and_stamp pf env (Some crd0) True True)
    = serial_prefix env (fst (bind_backend env crd0))
        (find_iccsn pf (xtrymalloc env) buf buflen)"
  using assms by (simp add: card_get_serial_and_stamp_def Let_def)

lemma starts_with_FF_not_placeholder:
  "starts_with_FF str \<Longrightarrow> str \<noteq> ''D27600000000000000000000''"
  by (auto simp: starts_with_FF_def)

lemma starts_with_FF_take: "starts_with_FF str \<longleftrightarrow> take 2 str = ''FF''"
proof (cases str)
  case Nil
  then show ?thesis by (simp add: starts_with_FF_def)
next
  case (Cons a as)
  then show ?thesis by (cases as) (auto simp: starts_with_FF_def)
qed

text \<open>
  Claim C3.  When the file is read, \<open>find_iccsn\<close> renders exactly
  \<open>D27600000000000000000000\<close>, the PKCS-15 application is bound and the new string
  can be allocated, serial retrieval succeeds with \<open>FF0100\<close> followed by the serial
  number of the application, which is the empty string when the application has
  none.
\<close>

theorem placeholder_serial_replaced:
  assumes "fst (read_gdo env) = Inr (buf, buflen)"
    and "find_iccsn pf (xtrymalloc env) buf buflen
           = Returns (GNUPG_Ok, Some ''D27600000000000000000000'')"
    and "p15card (fst (bind_backend env crd0)) = Some p15"
    and "xtrymalloc env (length (efser p15) + 7)"
  shows "serial_rc (card_get_serial_and_stamp pf env (Some crd0) True True)
           = Returns (GNUPG_Ok, Some (''FF0100'' @ efser p15))
    \<and> (serial_number p15 = None \<longrightarrow> efser p15 = [])
    \<and> (\<forall>ident. serial_number p15 = Some ident \<longrightarrow> efser p15 = ident)"
  using assms by (simp add: serial_rc_read serial_prefix_def efser_def)

text \<open>The identity file 5A 0C D2 76 00 ... 00 on a card whose application reports ABC123.\<close>

theorem placeholder_serial_replaced_witness:
  "serial_rc (card_get_serial_and_stamp unsigned_char_platform
       (sample_env [0x5A, 0x0C, 0xD2, 0x76, 0, 0, 0, 0, 0, 0, 0, 0, 0, 0])
       (Some zeroed_card) True True)
     = Returns (GNUPG_Ok, Some ''FF0100ABC123'')"
proof -
  let ?gdo = "[0x5A, 0x0C, 0xD2, 0x76, 0, 0, 0, 0, 0, 0, 0, 0, 0, 0] :: byte list"
  let ?buf = "?gdo @ replicate (256 - length ?gdo) 0"
  have found: "find_simple_tlv unsigned_char_platform ?buf 14 0x5A = Value 2 12"
    by (simp add: find_simple_tlv_def find_simple_tlv_loop.simps tlv_body_def tlv_length_def
          tlv_match_def peek_def unsigned_char_platform_def char_value_def to_size_t_def)
  have "find_iccsn unsigned_char_platform (xtrymalloc (sample_env ?gdo)) ?buf 14
          = Returns (GNUPG_Ok, Some (concat (map sprintf_02X (take 12 (drop 2 ?buf)))))"
    by (rule find_iccsn_fits [OF _ found]) (simp_all add: sample_env_def)
  then have rendered: "find_iccsn unsigned_char_platform (xtrymalloc (sample_env ?gdo)) ?buf 14
          = Returns (GNUPG_Ok, Some ''D27600000000000000000000'')"
    by (simp add: sprintf_02X_def hex_digit_def)
  have read: "fst (read_gdo (sample_env ?gdo)) = Inr (?buf, 14)"
    by (simp add: read_gdo_def sample_env_def)
  have bound: "p15card (fst (bind_backend (sample_env ?gdo) zeroed_card))
                 = Some \<lparr>serial_number = Some ''ABC123''\<rparr>"
    by (simp add: bind_backend_def sample_env_def zeroed_card_def set_initialized_def
          card_p15_bind_def install_def)
  have alloc: "xtrymalloc (sample_env ?gdo) (length (efser \<lparr>serial_number = Some ''ABC123''\<rparr>) + 7)"
    by (simp add: sample_env_def)
  from placeholder_serial_replaced [OF read rendered bound alloc] show ?thesis
    by (simp add: efser_def)
qed

text \<open>
  Claim C4.  When the file is read and \<open>find_iccsn\<close> renders a string whose first
  two characters are \<open>FF\<close>, serial retrieval returns \<open>FF0000\<close> followed by that
  string (the new string being allocated); such a string is never the
  placeholder.  In general the string returned is formed by the first rule that
  applies and by that rule alone: \<open>FF0100\<close> and the application's serial number
  for the placeholder on a bound PKCS-15 application, else \<open>FF0000\<close> before a
  string that starts with \<open>FF\<close>, else the string as rendered.
\<close>

theorem ff_serial_prefixed:
  assumes "fst (read_gdo env) = Inr (buf, buflen)"
    and "find_iccsn pf (xtrymalloc env) buf buflen = Returns (GNUPG_Ok, Some str)"
    and "\<forall>n. xtrymalloc env n"
  shows "(take 2 str = ''FF'' \<longrightarrow>
            str \<noteq> ''D27600000000000000000000''
            \<and> serial_rc (card_get_serial_and_stamp pf env (Some crd0) True True)
                = Returns (GNUPG_Ok, Some (''FF0000'' @ str)))
    \<and> serial_rc (card_get_serial_and_stamp pf env (Some crd0) True True)
        = Returns (GNUPG_Ok, Some
            (case (if str = ''D27600000000000000000000''
                   then p15card (fst (bind_backend env crd0)) else None) of
               Some p15 \<Rightarrow> ''FF0100'' @ efser p15
             | None \<Rightarrow> if take 2 str = ''FF'' then ''FF0000'' @ str else str))"
proof (intro conjI impI)
  assume "take 2 str = ''FF''"
  then have ff: "starts_with_FF str" by (simp add: starts_with_FF_take)
  then show "str \<noteq> ''D27600000000000000000000''" by (rule starts_with_FF_not_placeholder)
  with ff assms show "serial_rc (card_get_serial_and_stamp pf env (Some crd0) True True)
      = Returns (GNUPG_Ok, Some (''FF0000'' @ str))"
    by (simp add: serial_rc_read serial_prefix_def)
next
  from assms show "serial_rc (card_get_serial_and_stamp pf env (Some crd0) True True)
        = Returns (GNUPG_Ok, Some
            (case (if str = ''D27600000000000000000000''
                   then p15card (fst (bind_backend env crd0)) else None) of
               Some p15 \<Rightarrow> ''FF0100'' @ efser p15
             | None \<Rightarrow> if take 2 str = ''FF'' then ''FF0000'' @ str else str))"
    by (simp add: serial_rc_read serial_prefix_def starts_with_FF_take split: option.splits)
qed

text \<open>The identity file 5A 04 FF 11 22 33.\<close>

theorem ff_serial_prefixed_witness:
  "serial_rc (card_get_serial_and_stamp unsigned_char_platform
       (sample_env [0x5A, 0x04, 0xFF, 0x11, 0x22, 0x33]) (Some zeroed_card) True True)
     = Returns (GNUPG_Ok, Some ''FF0000FF112233'')"
proof -
  let ?gdo = "[0x5A, 0x04, 0xFF, 0x11, 0x22, 0x33] :: byte list"
  let ?buf = "?gdo @ replicate (256 - length ?gdo) 0"
  have found: "find_simple_tlv unsigned_char_platform ?buf 6 0x5A = Value 2 4"
    by (simp add: find_simple_tlv_def find_simple_tlv_loop.simps tlv_body_def tlv_length_def
          tlv_match_def peek_def unsigned_char_platform_def char_value_def to_size_t_def)
  have "find_iccsn unsigned_char_platform (xtrymalloc (sample_env ?gdo)) ?buf 6
          = Returns (GNUPG_Ok, Some (concat (map sprintf_02X (take 4 (drop 2 ?buf)))))"
    by (rule find_iccsn_fits [OF _ found]) (simp_all add: sample_env_def)
  then have rendered: "find_iccsn unsigned_char_platform (xtrymalloc (sample_env ?gdo)) ?buf 6
          = Returns (GNUPG_Ok, Some ''FF112233'')"
    by (simp add: sprintf_02X_def hex_digit_def)
  have read: "fst (read_gdo (sample_env ?gdo)) = Inr (?buf, 6)"
    by (simp add: read_gdo_def sample_env_def)
  have alloc: "\<forall>n. xtrymalloc (sample_env ?gdo) n"
    by (simp add: sample_env_def)
  from ff_serial_prefixed [OF read rendered alloc, of zeroed_card] show ?thesis
    by simp
qed

section \<open>The scanner on well-formed buffers\<close>

lemma uint_byte_of_nat: "k < 256 \<Longrightarrow> uint (of_nat k :: byte) = int k"
  by (simp add: uint_nat unat_of_nat)

lemma big_endian_int:
  assumes "b < 256"
  shows "push_bit 8 (int a) OR int b = int (a * 256 + b)"
proof -
  from assms have "take_bit 8 (int b) = int b"
    by (simp add: take_bit_int_eq_self)
  then have b: "int b = take_bit 8 (int b)" by simp
  have "push_bit 8 (int a) + int b = push_bit 8 (int a) OR int b"
  proof (rule disjunctive_add)
    fix n
    show "\<not> bit (push_bit 8 (int a)) n \<or> \<not> bit (int b) n"
      by (subst b) (auto simp: bit_simps)
  qed
  then show ?thesis by (simp add: push_bit_eq_mult)
qed

lemma to_size_t_small:
  assumes "16 \<le> size_bits pf" and "k < 65536"
  shows "to_size_t pf (int k) = k"
proof -
  have "(2::nat) ^ 16 \<le> 2 ^ size_bits pf"
    using assms(1) by (rule power_increasing) simp
  with assms(2) have "k < 2 ^ size_bits pf" by simp
  then have "int k mod 2 ^ size_bits pf = int k"
    by (simp add: zmod_int [symmetric])
  then show ?thesis by (simp add: to_size_t_def)
qed

lemma peek_append: "peek (pre @ xs) (length pre + i) = peek xs i"
  by (simp add: peek_def nth_append)

lemma peek_append_0: "peek (pre @ xs) (length pre) = peek xs 0"
  using peek_append [of pre xs 0] by simp

lemma peek_middle: "i < length xs \<Longrightarrow> peek (pre @ xs @ rest) (length pre + i) = Some (xs ! i)"
  by (simp add: peek_def nth_append)

lemma tlv_length_record:
  assumes "\<not> char_signed pf" and "16 \<le> size_bits pf" and "spec_well_formed r"
  shows "tlv_length pf (pre @ spec_encode_record r @ rest) (length pre)
           (length (spec_encode_record r) + k)
         = Header (length pre + length (spec_header r)) (length (rec_value r) + k)
             (length (rec_value r))"
proof (cases "rec_extended r")
  case False
  with assms(3) have len: "length (rec_value r) < 255" by (simp add: spec_well_formed_def)
  let ?L = "length (rec_value r)"
  from len have size: "to_size_t pf (int ?L) = ?L"
    by (intro to_size_t_small assms) simp
  from len have small: "?L < 256" by simp
  have "peek (pre @ spec_encode_record r @ rest) (length pre + 1)
          = Some (spec_encode_record r ! 1)"
    using False by (intro peek_middle) (simp add: spec_encode_record_def spec_header_def)
  with False have byte: "peek (pre @ spec_encode_record r @ rest) (Suc (length pre)) = Some (of_nat ?L)"
    by (simp add: spec_encode_record_def spec_header_def)
  have enc: "length (spec_encode_record r) = ?L + 2" "length (spec_header r) = 2"
    using False by (simp_all add: spec_encode_record_def spec_header_def)
  from assms(1) len show ?thesis
    by (simp add: tlv_length_def Let_def byte char_value_def uint_byte_of_nat [OF small] size enc)
next
  case True
  with assms(3) have len: "length (rec_value r) < 65536" by (simp add: spec_well_formed_def)
  let ?L = "length (rec_value r)"
  from len have hi: "?L div 256 < 256" by simp
  have lo: "?L mod 256 < 256" by simp
  have "push_bit 8 (int (?L div 256)) OR int (?L mod 256) = int (?L div 256 * 256 + ?L mod 256)"
    by (rule big_endian_int) simp
  then have be: "push_bit 8 (int (?L div 256)) OR int (?L mod 256) = int ?L" by simp
  have size: "to_size_t pf (int ?L) = ?L"
    using assms(2) len by (rule to_size_t_small)
  have ff: "to_size_t pf 255 = 255"
    using to_size_t_small [OF assms(2), of 255] by simp
  have "peek (pre @ spec_encode_record r @ rest) (length pre + 1)
          = Some (spec_encode_record r ! 1)"
    using True by (intro peek_middle) (simp add: spec_encode_record_def spec_header_def)
  with True have b1: "peek (pre @ spec_encode_record r @ rest) (Suc (length pre)) = Some 0xFF"
    by (simp add: spec_encode_record_def spec_header_def)
  have "peek (pre @ spec_encode_record r @ rest) (length pre + 2)
          = Some (spec_encode_record r ! 2)"
    using True by (intro peek_middle) (simp add: spec_encode_record_def spec_header_def)
  with True have b2: "peek (pre @ spec_encode_record r @ rest) (length pre + 2)
          = Some (of_nat (?L div 256))"
    by (simp add: spec_encode_record_def spec_header_def)
  have "peek (pre @ spec_encode_record r @ rest) (length pre + 3)
          = Some (spec_encode_record r ! 3)"
    using True by (intro peek_middle) (simp add: spec_encode_record_def spec_header_def)
  with True have b3: "peek (pre @ spec_encode_record r @ rest) (length pre + 3)
          = Some (of_nat (?L mod 256))"
    by (simp add: spec_encode_record_def spec_header_def)
  from b2 have b2': "peek (pre @ spec_encode_record r @ rest) (Suc (Suc (length pre)))
          = Some (of_nat (?L div 256))"
    by simp
  note bytes = b2 b2' b3
  have enc: "length (spec_encode_record r) = ?L + 4" "length (spec_header r) = 4"
    using True by (simp_all add: spec_encode_record_def spec_header_def)
  from assms(1) show ?thesis
    by (simp add: tlv_length_def Let_def b1 bytes char_value_def ff uint_byte_of_nat [OF hi]
          uint_byte_of_nat [OF lo] be size enc)
qed

lemma spec_header_tag: "peek (spec_encode_record r @ rest) 0 = Some (rec_tag r)"
  by (simp add: peek_def spec_encode_record_def spec_header_def)

lemma loop_spec_encode:
  assumes "\<not> char_signed pf" and "16 \<le> size_bits pf" and "\<forall>r \<in> set rs. spec_well_formed r"
  shows "find_simple_tlv_loop pf (pre @ spec_encode rs @ post) tag (length pre)
           (length (spec_encode rs))
         = spec_scan tag (length pre) rs"
  using assms(3)
proof (induction rs arbitrary: pre)
  case Nil
  show ?case
    by (simp add: find_simple_tlv_loop.simps [of _ _ _ "length pre" 0] tlv_body_def
          tlv_length_def spec_encode_def)
next
  case (Cons r rs)
  let ?buf = "pre @ spec_encode (r # rs) @ post"
  have buf: "?buf = pre @ spec_encode_record r @ (spec_encode rs @ post)"
    by (simp add: spec_encode_def)
  have n: "length (spec_encode (r # rs)) = length (spec_encode_record r) + length (spec_encode rs)"
    by (simp add: spec_encode_def)
  from Cons.prems have wf: "spec_well_formed r" by simp
  have header: "tlv_length pf ?buf (length pre) (length (spec_encode (r # rs)))
      = Header (length pre + length (spec_header r))
          (length (rec_value r) + length (spec_encode rs)) (length (rec_value r))"
    unfolding buf n by (rule tlv_length_record [OF assms(1,2) wf])
  have tag: "peek ?buf (length pre) = Some (rec_tag r)"
    unfolding buf by (simp add: peek_append_0 spec_header_tag)
  show ?case
  proof (cases "uint (rec_tag r) = tag")
    case True
    then show ?thesis
      by (simp add: find_simple_tlv_loop.simps [of _ ?buf] tlv_body_def header tlv_match_def tag)
  next
    case False
    have "find_simple_tlv_loop pf ?buf tag (length pre) (length (spec_encode (r # rs)))
      = find_simple_tlv_loop pf ?buf tag
          (length pre + length (spec_header r) + length (rec_value r))
          (length (spec_encode rs))"
      using False
      by (simp add: find_simple_tlv_loop.simps [of _ ?buf _ "length pre"] tlv_body_def header
            tlv_match_def tag)
    also have "\<dots> = find_simple_tlv_loop pf ((pre @ spec_encode_record r) @ spec_encode rs @ post)
          tag (length (pre @ spec_encode_record r)) (length (spec_encode rs))"
      by (simp add: spec_encode_def spec_encode_record_def add.assoc)
    also have "\<dots> = spec_scan tag (length (pre @ spec_encode_record r)) rs"
      using Cons.prems by (intro Cons.IH) simp
    finally show ?thesis using False by simp
  qed
qed

lemma spec_scan_absent:
  "\<forall>r \<in> set rs. uint (rec_tag r) \<noteq> tag \<Longrightarrow> spec_scan tag off rs = Null"
  by (induction rs arbitrary: off) simp_all

lemma spec_scan_first:
  assumes "\<forall>q \<in> set before. uint (rec_tag q) \<noteq> tag" and "uint (rec_tag r) = tag"
  shows "spec_scan tag off (before @ r # after)
    = Value (off + length (spec_encode before) + length (spec_header r)) (length (rec_value r))"
  using assms(1)
proof (induction before arbitrary: off)
  case Nil
  with assms(2) show ?case by (simp add: spec_encode_def)
next
  case (Cons q qs)
  then show ?case by (simp add: spec_encode_def add.assoc)
qed

lemma spec_encode_value:
  "take (length (rec_value r))
     (drop (length (spec_encode before) + length (spec_header r))
        (spec_encode (before @ r # after)))
   = rec_value r"
  by (simp add: spec_encode_def spec_encode_record_def)

lemma signed_char_never_extended:
  assumes "char_signed pf" and "16 \<le> size_bits pf"
  shows "to_size_t pf (char_value pf b) \<noteq> 255"
proof -
  have big: "(2::int) ^ 16 \<le> 2 ^ size_bits pf"
    using assms(2) by (rule power_increasing) simp
  have range: "- 128 \<le> sint b" "sint b \<le> 127"
    using sint_ge [of b] sint_lt [of b] by simp_all
  show ?thesis
  proof (cases "0 \<le> sint b")
    case True
    with range big have "sint b mod 2 ^ size_bits pf = sint b" by simp
    with range True assms(1) show ?thesis by (simp add: to_size_t_def char_value_def)
  next
    case False
    with range big have "(sint b + 2 ^ size_bits pf) mod 2 ^ size_bits pf
        = sint b + 2 ^ size_bits pf"
      by (intro mod_pos_pos_trivial) simp_all
    then have "sint b mod 2 ^ size_bits pf = sint b + 2 ^ size_bits pf"
      by simp
    with range big assms(1) show ?thesis by (simp add: to_size_t_def char_value_def)
  qed
qed

text \<open>
  Where plain \<open>char\<close> is unsigned, the scanner does what the specification asks on
  every well-formed buffer: it returns the value of the first record with the
  target tag, with its length, and the null pointer when no record has the tag;
  a length byte FF is followed by the length in two bytes, big-endian.
\<close>

lemma scanner_meets_spec_unsigned_char:
  assumes "\<not> char_signed pf" and "16 \<le> size_bits pf" and "\<forall>r \<in> set rs. spec_well_formed r"
  shows "find_simple_tlv pf (spec_encode rs) (length (spec_encode rs)) tag = spec_scan tag 0 rs"
    and "\<forall>r \<in> set rs. uint (rec_tag r) \<noteq> tag \<Longrightarrow>
           find_simple_tlv pf (spec_encode rs) (length (spec_encode rs)) tag = Null"
    and "rs = before @ r # after \<Longrightarrow> \<forall>q \<in> set before. uint (rec_tag q) \<noteq> tag \<Longrightarrow>
         uint (rec_tag r) = tag \<Longrightarrow>
           \<exists>off. find_simple_tlv pf (spec_encode rs) (length (spec_encode rs)) tag
                   = Value off (length (rec_value r))
             \<and> take (length (rec_value r)) (drop off (spec_encode rs)) = rec_value r"
proof -
  from loop_spec_encode [OF assms, of "[]" "[]" tag]
  show scan: "find_simple_tlv pf (spec_encode rs) (length (spec_encode rs)) tag
      = spec_scan tag 0 rs"
    by (simp add: find_simple_tlv_def)
  show "find_simple_tlv pf (spec_encode rs) (length (spec_encode rs)) tag = Null"
    if "\<forall>r \<in> set rs. uint (rec_tag r) \<noteq> tag"
    using that by (simp add: scan spec_scan_absent)
  show "\<exists>off. find_simple_tlv pf (spec_encode rs) (length (spec_encode rs)) tag
                   = Value off (length (rec_value r))
          \<and> take (length (rec_value r)) (drop off (spec_encode rs)) = rec_value r"
    if "rs = before @ r # after" and "\<forall>q \<in> set before. uint (rec_tag q) \<noteq> tag"
      and "uint (rec_tag r) = tag"
  proof (intro exI conjI)
    show "find_simple_tlv pf (spec_encode rs) (length (spec_encode rs)) tag
        = Value (length (spec_encode before) + length (spec_header r)) (length (rec_value r))"
      using scan spec_scan_first [OF that(2,3), of 0 after] unfolding that(1) by simp
    show "take (length (rec_value r))
        (drop (length (spec_encode before) + length (spec_header r)) (spec_encode rs))
        = rec_value r"
      unfolding that(1) by (rule spec_encode_value)
  qed
qed

text \<open>
  Claim C6 at the well-formed buffer 5A FF 00 02 AA BB, one record with tag 5A and
  the extended length 2, and at the buffer 4F 80 and 128 bytes followed by the
  record 5A 01 07.  Where plain \<open>char\<close> is unsigned the scanner returns the two
  value bytes at offset 4 and the value byte at offset 132.  Where plain \<open>char\<close>
  is signed the length byte FF is read as -1, which as a \<open>size_t\<close> is not 255: the
  scanner returns offset 2 with the length \<open>2 ^ 64 - 1\<close>; and the length byte 80
  is read as -128, so the first record seems longer than the buffer and the
  record with tag 5A is not found.
\<close>

theorem length_byte_signed_char:
  "spec_encode [\<lparr>rec_tag = 0x5A, rec_extended = True, rec_value = [0xAA, 0xBB]\<rparr>]
     = [0x5A, 0xFF, 0x00, 0x02, 0xAA, 0xBB]
   \<and> find_simple_tlv unsigned_char_platform [0x5A, 0xFF, 0x00, 0x02, 0xAA, 0xBB] 6 0x5A
       = Value 4 2
   \<and> find_simple_tlv signed_char_platform [0x5A, 0xFF, 0x00, 0x02, 0xAA, 0xBB] 6 0x5A
       = Value 2 (2 ^ 64 - 1)
   \<and> find_simple_tlv unsigned_char_platform
         ([0x4F, 0x80] @ replicate 128 0 @ [0x5A, 0x01, 0x07]) 133 0x5A
       = Value 132 1
   \<and> find_simple_tlv signed_char_platform
         ([0x4F, 0x80] @ replicate 128 0 @ [0x5A, 0x01, 0x07]) 133 0x5A
       = Null"
  by (simp add: find_simple_tlv_def find_simple_tlv_loop.simps tlv_body_def tlv_length_def
        tlv_match_def peek_def unsigned_char_platform_def signed_char_platform_def
        char_value_def to_size_t_def spec_encode_def spec_encode_record_def spec_header_def
        nth_append)

section \<open>The serial number on whole buffers\<close>

lemma sint_byte_of_nat: "k < 128 \<Longrightarrow> sint (of_nat k :: byte) = int k"
proof -
  assume k: "k < 128"
  then have "uint (of_nat k :: byte) = int k" by (simp add: uint_byte_of_nat)
  moreover from k have "\<not> bit (int k) 7"
    by (simp add: bit_iff_odd)
  moreover from k have "take_bit 7 (int k) = int k"
    by (simp add: take_bit_int_eq_self)
  ultimately show ?thesis
    by (simp add: sint_uint signed_take_bit_eq_if_positive)
qed

lemma char_value_readable:
  assumes "length_readable pf r" and "\<not> rec_extended r"
  shows "to_size_t pf (char_value pf (of_nat (length (rec_value r)) :: byte))
           = length (rec_value r)"
proof -
  from assms have len: "length (rec_value r) < 255" and bits: "16 \<le> size_bits pf"
    by (simp_all add: length_readable_def spec_well_formed_def)
  from len have size: "to_size_t pf (int (length (rec_value r))) = length (rec_value r)"
    by (intro to_size_t_small bits) simp
  show ?thesis
  proof (cases "char_signed pf")
    case True
    with assms have "length (rec_value r) < 128" by (simp add: length_readable_def)
    with True size show ?thesis by (simp add: char_value_def sint_byte_of_nat)
  next
    case False
    from len have "length (rec_value r) < 256" by simp
    with False size show ?thesis by (simp add: char_value_def uint_byte_of_nat)
  qed
qed

text \<open>The length field of a record the platform can read, whatever follows it.\<close>

lemma tlv_length_header:
  assumes "length_readable pf r"
  shows "tlv_length pf (pre @ spec_header r @ rest) (length pre) (length (spec_header r) + k)
         = Header (length pre + length (spec_header r)) k (length (rec_value r))"
proof (cases "rec_extended r")
  case False
  let ?L = "length (rec_value r)"
  from assms have len: "?L < 255" and bits: "16 \<le> size_bits pf"
    using False by (simp_all add: length_readable_def spec_well_formed_def)
  have "peek (pre @ spec_header r @ rest) (length pre + 1) = Some (spec_header r ! 1)"
    using False by (intro peek_middle) (simp add: spec_header_def)
  with False have byte: "peek (pre @ spec_header r @ rest) (Suc (length pre)) = Some (of_nat ?L)"
    by (simp add: spec_header_def)
  have hdr: "length (spec_header r) = 2"
    using False by (simp add: spec_header_def)
  from len show ?thesis
    by (simp add: tlv_length_def Let_def byte hdr char_value_readable [OF assms False])
next
  case True
  let ?L = "length (rec_value r)"
  from assms True have unsigned: "\<not> char_signed pf" and bits: "16 \<le> size_bits pf"
    and len: "?L < 65536"
    by (auto simp: length_readable_def spec_well_formed_def)
  from len have hi: "?L div 256 < 256" by simp
  have lo: "?L mod 256 < 256" by simp
  have "push_bit 8 (int (?L div 256)) OR int (?L mod 256) = int (?L div 256 * 256 + ?L mod 256)"
    by (rule big_endian_int) simp
  then have be: "push_bit 8 (int (?L div 256)) OR int (?L mod 256) = int ?L" by simp
  have size: "to_size_t pf (int ?L) = ?L"
    using bits len by (rule to_size_t_small)
  have ff: "to_size_t pf 255 = 255"
    using to_size_t_small [OF bits, of 255] by simp
  have "peek (pre @ spec_header r @ rest) (length pre + 1) = Some (spec_header r ! 1)"
    using True by (intro peek_middle) (simp add: spec_header_def)
  with True have b1: "peek (pre @ spec_header r @ rest) (Suc (length pre)) = Some 0xFF"
    by (simp add: spec_header_def)
  have "peek (pre @ spec_header r @ rest) (length pre + 2) = Some (spec_header r ! 2)"
    using True by (intro peek_middle) (simp add: spec_header_def)
  with True have b2: "peek (pre @ spec_header r @ rest) (length pre + 2)
      = Some (of_nat (?L div 256))"
    by (simp add: spec_header_def)
  from b2 have b2': "peek (pre @ spec_header r @ rest) (Suc (Suc (length pre)))
      = Some (of_nat (?L div 256))"
    by simp
  have "peek (pre @ spec_header r @ rest) (length pre + 3) = Some (spec_header r ! 3)"
    using True by (intro peek_middle) (simp add: spec_header_def)
  with True have b3: "peek (pre @ spec_header r @ rest) (length pre + 3)
      = Some (of_nat (?L mod 256))"
    by (simp add: spec_header_def)
  have hdr: "length (spec_header r) = 4"
    using True by (simp add: spec_header_def)
  from unsigned show ?thesis
    by (simp add: tlv_length_def Let_def b1 b2 b2' b3 char_value_def ff
          uint_byte_of_nat [OF hi] uint_byte_of_nat [OF lo] be size hdr)
qed

lemma spec_header_first: "peek (pre @ spec_header r @ rest) (length pre) = Some (rec_tag r)"
  using peek_middle [of 0 "spec_header r" pre rest] by (simp add: spec_header_def)

text \<open>The scanner passes the records that do not have the target tag.\<close>

lemma loop_skips_records:
  assumes "\<forall>r \<in> set rs. length_readable pf r \<and> uint (rec_tag r) \<noteq> tag"
  shows "find_simple_tlv_loop pf (pre @ spec_encode rs @ rest) tag (length pre)
           (length (spec_encode rs) + k)
         = find_simple_tlv_loop pf (pre @ spec_encode rs @ rest) tag
             (length pre + length (spec_encode rs)) k"
  using assms
proof (induction rs arbitrary: pre)
  case Nil
  show ?case by (simp add: spec_encode_def)
next
  case (Cons r rs)
  let ?buf = "pre @ spec_encode (r # rs) @ rest"
  let ?L = "length (rec_value r)"
  let ?m = "length (spec_encode rs)"
  have buf: "?buf = pre @ spec_header r @ (rec_value r @ spec_encode rs @ rest)"
    by (simp add: spec_encode_def spec_encode_record_def)
  have n: "length (spec_encode (r # rs)) + k = length (spec_header r) + (?L + ?m + k)"
    by (simp add: spec_encode_def spec_encode_record_def)
  from Cons.prems have readable: "length_readable pf r" and other: "uint (rec_tag r) \<noteq> tag"
    by simp_all
  have header: "tlv_length pf ?buf (length pre) (length (spec_encode (r # rs)) + k)
      = Header (length pre + length (spec_header r)) (?L + ?m + k) ?L"
    unfolding buf n by (rule tlv_length_header [OF readable])
  have tag: "peek ?buf (length pre) = Some (rec_tag r)"
    unfolding buf by (rule spec_header_first)
  have "find_simple_tlv_loop pf ?buf tag (length pre) (length (spec_encode (r # rs)) + k)
      = find_simple_tlv_loop pf ?buf tag (length pre + length (spec_header r) + ?L) (?m + k)"
    using other
    by (simp add: find_simple_tlv_loop.simps [of _ ?buf _ "length pre"] tlv_body_def header
          tlv_match_def tag)
  also have "\<dots> = find_simple_tlv_loop pf ((pre @ spec_encode_record r) @ spec_encode rs @ rest)
      tag (length (pre @ spec_encode_record r)) (?m + k)"
    by (simp add: spec_encode_def spec_encode_record_def add.assoc)
  also have "\<dots> = find_simple_tlv_loop pf ((pre @ spec_encode_record r) @ spec_encode rs @ rest)
      tag (length (pre @ spec_encode_record r) + ?m) k"
    using Cons.prems by (intro Cons.IH) simp
  also have "\<dots> = find_simple_tlv_loop pf ?buf tag
      (length pre + length (spec_encode (r # rs))) k"
    by (simp add: spec_encode_def spec_encode_record_def add.assoc)
  finally show ?case .
qed

text \<open>
  The buffer holds the records \<open>before\<close>, none with the target tag, then the tag
  and length field of a record with the target tag, then the bytes \<open>rest\<close>: the
  scanner returns the pointer to \<open>rest\<close> and the declared length.
\<close>

lemma scan_reaches_record:
  assumes "\<forall>q \<in> set before. length_readable pf q \<and> uint (rec_tag q) \<noteq> tag"
    and "length_readable pf r" and "uint (rec_tag r) = tag"
  shows "find_simple_tlv pf (spec_encode before @ spec_header r @ rest)
           (length (spec_encode before @ spec_header r @ rest)) tag
         = Value (length (spec_encode before) + length (spec_header r)) (length (rec_value r))"
proof -
  let ?buf = "spec_encode before @ spec_header r @ rest"
  have "find_simple_tlv pf ?buf (length ?buf) tag
      = find_simple_tlv_loop pf ([] @ spec_encode before @ (spec_header r @ rest)) tag
          (length ([] :: byte list))
          (length (spec_encode before) + (length (spec_header r) + length rest))"
    by (simp add: find_simple_tlv_def)
  also have "\<dots> = find_simple_tlv_loop pf ([] @ spec_encode before @ (spec_header r @ rest)) tag
      (length ([] :: byte list) + length (spec_encode before))
      (length (spec_header r) + length rest)"
    by (rule loop_skips_records [OF assms(1)])
  also have "\<dots> = find_simple_tlv_loop pf ?buf tag (length (spec_encode before))
      (length (spec_header r) + length rest)"
    by simp
  also have "\<dots> = Value (length (spec_encode before) + length (spec_header r))
      (length (rec_value r))"
    using assms(3)
    by (simp add: find_simple_tlv_loop.simps [of _ ?buf] tlv_body_def
          tlv_length_header [OF assms(2)] tlv_match_def spec_header_first)
  finally show ?thesis .
qed

text \<open>
  On such a buffer with the tag 5A, where the platform reads the length fields:
  a value that is not empty and fits is returned in hexadecimal; the declared
  length 13 with 12 bytes in the buffer gives the 12 bytes; every other declared
  length that exceeds the bytes in the buffer gives \<open>GNUPG_Card_Error\<close>.
\<close>

lemma find_iccsn_on_readable_buffer:
  assumes "\<forall>q \<in> set before. length_readable pf q \<and> uint (rec_tag q) \<noteq> 0x5A"
    and "length_readable pf r" and "uint (rec_tag r) = 0x5A"
    and "buf = spec_encode before @ spec_header r @ rest"
  shows "0 < length (rec_value r) \<Longrightarrow> length (rec_value r) \<le> length rest \<Longrightarrow>
         alloc (2 * length (rec_value r) + 1) \<Longrightarrow>
           find_iccsn pf alloc buf (length buf)
             = Returns (GNUPG_Ok,
                 Some (concat (map sprintf_02X (take (length (rec_value r)) rest))))"
    and "length (rec_value r) = 13 \<Longrightarrow> length rest = 12 \<Longrightarrow> alloc 25 \<Longrightarrow>
           find_iccsn pf alloc buf (length buf)
             = Returns (GNUPG_Ok, Some (concat (map sprintf_02X rest)))"
    and "length rest < length (rec_value r) \<Longrightarrow>
         \<not> (length (rec_value r) = 13 \<and> length rest = 12) \<Longrightarrow>
           find_iccsn pf alloc buf (length buf) = Returns (GNUPG_Card_Error, None)"
proof -
  let ?off = "length (spec_encode before) + length (spec_header r)"
  have found: "find_simple_tlv pf buf (length buf) 0x5A = Value ?off (length (rec_value r))"
    unfolding assms(4) by (rule scan_reaches_record [OF assms(1,2,3)])
  have left: "length buf - ?off = length rest" by (simp add: assms(4))
  have bytes: "drop ?off buf = rest" by (simp add: assms(4))
  show "find_iccsn pf alloc buf (length buf)
      = Returns (GNUPG_Ok, Some (concat (map sprintf_02X (take (length (rec_value r)) rest))))"
    if "0 < length (rec_value r)" and "length (rec_value r) \<le> length rest"
      and "alloc (2 * length (rec_value r) + 1)"
    using find_iccsn_fits [OF _ found, where alloc = alloc] that by (simp add: left bytes)
  show "find_iccsn pf alloc buf (length buf)
      = Returns (GNUPG_Ok, Some (concat (map sprintf_02X rest)))"
    if "length (rec_value r) = 13" and "length rest = 12" and "alloc 25"
    using find_iccsn_short_by_one [OF _ found [unfolded that(1)], where alloc = alloc] that
    by (simp add: left bytes)
  show "find_iccsn pf alloc buf (length buf) = Returns (GNUPG_Card_Error, None)"
    if "length rest < length (rec_value r)"
      and "\<not> (length (rec_value r) = 13 \<and> length rest = 12)"
    using find_iccsn_overlong [OF found, where alloc = alloc] that by (simp add: left)
qed

lemma hex_render_numeral:
  "hex_render buf s (numeral k) =
     (case peek buf s of
        None \<Rightarrow> None
      | Some b \<Rightarrow>
          (case hex_render buf (Suc s) (pred_numeral k) of
             None \<Rightarrow> None
           | Some r \<Rightarrow> Some (sprintf_02X b @ r)))"
  by (simp add: numeral_eq_Suc)

text \<open>
  Claim C5 at the buffer 5A FF 00 0D and 12 bytes, where the record with tag 5A
  declares the length 13 in the extended form and 12 bytes are left, and at the
  buffer 4F 80, 128 bytes, 5A 0D and 12 bytes.  Where plain \<open>char\<close> is unsigned
  \<open>find_iccsn\<close> succeeds with the 12 bytes, as it does on either platform for
  5A 0D and 12 bytes.  Where plain \<open>char\<close> is signed the length byte FF is read
  as -1 and the length byte 80 as -128, the scanner hands back a length that is
  not 13, or no record at all, and \<open>find_iccsn\<close> fails with \<open>GNUPG_Card_Error\<close>.
\<close>

theorem workaround_signed_char:
  "find_iccsn signed_char_platform (\<lambda>n. True)
       [0x5A, 0x0D, 1, 2, 3, 4, 5, 6, 7, 8, 9, 10, 11, 12] 14
     = Returns (GNUPG_Ok, Some ''0102030405060708090A0B0C'')
   \<and> find_iccsn unsigned_char_platform (\<lambda>n. True)
       [0x5A, 0xFF, 0x00, 0x0D, 1, 2, 3, 4, 5, 6, 7, 8, 9, 10, 11, 12] 16
     = Returns (GNUPG_Ok, Some ''0102030405060708090A0B0C'')
   \<and> find_iccsn signed_char_platform (\<lambda>n. True)
       [0x5A, 0xFF, 0x00, 0x0D, 1, 2, 3, 4, 5, 6, 7, 8, 9, 10, 11, 12] 16
     = Returns (GNUPG_Card_Error, None)
   \<and> find_iccsn unsigned_char_platform (\<lambda>n. True)
       ([0x4F, 0x80] @ replicate 128 0
          @ [0x5A, 0x0D, 1, 2, 3, 4, 5, 6, 7, 8, 9, 10, 11, 12]) 144
     = Returns (GNUPG_Ok, Some ''0102030405060708090A0B0C'')
   \<and> find_iccsn signed_char_platform (\<lambda>n. True)
       ([0x4F, 0x80] @ replicate 128 0
          @ [0x5A, 0x0D, 1, 2, 3, 4, 5, 6, 7, 8, 9, 10, 11, 12]) 144
     = Returns (GNUPG_Card_Error, None)"
  by (simp add: find_iccsn_def find_simple_tlv_def find_simple_tlv_loop.simps tlv_body_def
        tlv_length_def tlv_match_def peek_def unsigned_char_platform_def
        signed_char_platform_def char_value_def to_size_t_def nth_append hex_render_numeral
        sprintf_02X_def hex_digit_def)

text \<open>
  Claim C7 at the buffer 5A FF 00 04 DE AD BE EF, whose value of 4 bytes fits,
  at the buffer 4F 80, 128 bytes and 5A 04 DE AD BE EF, and at the buffer 5A 80
  and 128 bytes.  The buffer 5A 04 DE AD BE EF gives DEADBEEF on either
  platform, and where plain \<open>char\<close> is unsigned so do the first two.  Where plain
  \<open>char\<close> is signed the length bytes FF and 80 are read as negative, and
  \<open>find_iccsn\<close> prints nothing: it fails with \<open>GNUPG_Card_Error\<close> on all three.
\<close>

theorem hex_rendering_signed_char:
  "find_iccsn unsigned_char_platform (\<lambda>n. True) [0x5A, 0x04, 0xDE, 0xAD, 0xBE, 0xEF] 6
     = Returns (GNUPG_Ok, Some ''DEADBEEF'')
   \<and> find_iccsn signed_char_platform (\<lambda>n. True) [0x5A, 0x04, 0xDE, 0xAD, 0xBE, 0xEF] 6
     = Returns (GNUPG_Ok, Some ''DEADBEEF'')
   \<and> find_iccsn unsigned_char_platform (\<lambda>n. True)
       [0x5A, 0xFF, 0x00, 0x04, 0xDE, 0xAD, 0xBE, 0xEF] 8
     = Returns (GNUPG_Ok, Some ''DEADBEEF'')
   \<and> find_iccsn signed_char_platform (\<lambda>n. True)
       [0x5A, 0xFF, 0x00, 0x04, 0xDE, 0xAD, 0xBE, 0xEF] 8
     = Returns (GNUPG_Card_Error, None)
   \<and> find_iccsn unsigned_char_platform (\<lambda>n. True)
       ([0x4F, 0x80] @ replicate 128 0 @ [0x5A, 0x04, 0xDE, 0xAD, 0xBE, 0xEF]) 136
     = Returns (GNUPG_Ok, Some ''DEADBEEF'')
   \<and> find_iccsn signed_char_platform (\<lambda>n. True)
       ([0x4F, 0x80] @ replicate 128 0 @ [0x5A, 0x04, 0xDE, 0xAD, 0xBE, 0xEF]) 136
     = Returns (GNUPG_Card_Error, None)
   \<and> find_iccsn signed_char_platform (\<lambda>n. True) ([0x5A, 0x80] @ replicate 128 0) 130
     = Returns (GNUPG_Card_Error, None)"
  by (simp add: find_iccsn_def find_simple_tlv_def find_simple_tlv_loop.simps tlv_body_def
        tlv_length_def tlv_match_def peek_def unsigned_char_platform_def
        signed_char_platform_def char_value_def to_size_t_def nth_append hex_render_numeral
        sprintf_02X_def hex_digit_def)

end
